theory Spec2Isabelle
  imports Main "HOL-Library.Multiset" "HOL-Library.Char_ord" "HOL-Library.List_Lexorder"
begin

section \<open>Data model of clean\_duplicates.py\<close>

text \<open>
  A Drive file resource is the Python dict returned by the listing call: string keys
  (\<open>id\<close>, \<open>name\<close>, \<open>mimeType\<close>, \<open>createdTime\<close>, \<open>modifiedTime\<close>, \<open>size\<close>) with string
  values, any of which may be missing. It is an association list read with \<open>map_of\<close>.
  Strings are compared as Python compares \<open>str\<close>: lexicographically, character by
  character, a proper prefix being smaller (\<open>List_Lexorder\<close> over \<open>Char_ord\<close>).
  A character is a byte here; the ids and the RFC 3339 timestamps of the service are
  ASCII, and names are only compared for equality.
\<close>

type_synonym drive_file = "(string \<times> string) list"

text \<open>
  The exceptions of a run: the two the script's own code raises, the \<open>EOFError\<close> of
  \<open>input\<close> on a closed standard input, and any other exception of a library call, with
  the name of its class.
\<close>

datatype error = KeyError string | IndexError | EOFError | Other string

text \<open>\<open>d[k]\<close>: raises \<open>KeyError\<close> when the key is missing.\<close>

definition getitem :: "drive_file \<Rightarrow> string \<Rightarrow> error + string" where
  "getitem d k = (case map_of d k of None \<Rightarrow> Inl (KeyError k) | Some v \<Rightarrow> Inr v)"

text \<open>\<open>d.get(k, dflt)\<close>: never raises.\<close>

definition get :: "drive_file \<Rightarrow> string \<Rightarrow> string \<Rightarrow> string" where
  "get d k dflt = (case map_of d k of None \<Rightarrow> dflt | Some v \<Rightarrow> v)"

text \<open>
  The dict \<open>duplicates\<close> of \<open>find_duplicates\<close>: from a name to the list of files of that
  name. A Python dict iterates in insertion order, so it is an association list in
  insertion order.
\<close>

type_synonym buckets = "(string \<times> drive_file list) list"

section \<open>find\_duplicates\<close>

text \<open>
  The body of the loop once \<open>name\<close> is read (lines 89 to 91):
  \<^verbatim>\<open>
  if name not in duplicates:
      duplicates[name] = []
  duplicates[name].append(file)
  \<close>
\<close>

definition add_file :: "string \<Rightarrow> drive_file \<Rightarrow> buckets \<Rightarrow> buckets" where
  "add_file name file duplicates =
     (let duplicates =
        (if map_of duplicates name = None then duplicates @ [(name, [])] else duplicates)
      in map (\<lambda>(k, files_list). if k = name then (k, files_list @ [file]) else (k, files_list))
           duplicates)"

text \<open>
  The variables of \<open>find_duplicates\<close>: its argument \<open>files\<close> and its local \<open>duplicates\<close>.
\<close>

record vars =
  v_files :: "drive_file list"
  v_duplicates :: buckets

text \<open>
  The loop \<open>for file in files\<close> (lines 87 to 91), over the files still to visit.
  \<open>file['name']\<close> raises on a record without the key, which ends the function.
\<close>

fun group_by_name :: "drive_file list \<Rightarrow> vars \<Rightarrow> error + vars" where
  "group_by_name [] vs = Inr vs"
| "group_by_name (file # rest) vs =
     (case getitem file ''name'' of
        Inl e \<Rightarrow> Inl e
      | Inr name \<Rightarrow>
          group_by_name rest (vs\<lparr>v_duplicates := add_file name file (v_duplicates vs)\<rparr>))"

text \<open>
  The whole function, with the comprehension of line 94 that keeps the names with more
  than one file and rebinds \<open>duplicates\<close>.
\<close>

definition find_duplicates_vars :: "drive_file list \<Rightarrow> error + vars" where
  "find_duplicates_vars files =
     (case group_by_name files \<lparr>v_files = files, v_duplicates = []\<rparr> of
        Inl e \<Rightarrow> Inl e
      | Inr vs \<Rightarrow>
          Inr (vs\<lparr>v_duplicates :=
                 filter (\<lambda>(name, files_list). length files_list > 1) (v_duplicates vs)\<rparr>))"

text \<open>What \<open>find_duplicates\<close> returns: the final value of \<open>duplicates\<close>.\<close>

definition find_duplicates :: "drive_file list \<Rightarrow> error + buckets" where
  "find_duplicates files =
     (case find_duplicates_vars files of Inl e \<Rightarrow> Inl e | Inr vs \<Rightarrow> Inr (v_duplicates vs))"

section \<open>cleanup\_duplicates\<close>

text \<open>
  \<open>files_list.sort(key=..., reverse=True)\<close>: CPython reverses the list, sorts it
  stably in ascending order of the key, and reverses the result, so that records with
  equal keys keep their order. \<open>sort_key\<close> is the stable insertion sort of the library.
\<close>

definition sort_reverse :: "('a \<Rightarrow> 'k::linorder) \<Rightarrow> 'a list \<Rightarrow> 'a list" where
  "sort_reverse key xs = rev (sort_key key (rev xs))"

text \<open>The sort key of line 134: \<open>lambda x: x.get('modifiedTime', '')\<close>.\<close>

definition modified_key :: "drive_file \<Rightarrow> string" where
  "modified_key x = get x ''modifiedTime'' ''''"

text \<open>
  Lines 134 to 138: sort the bucket, \<open>keep = files_list[0]\<close> (an \<open>IndexError\<close> on an
  empty list), \<open>to_delete = files_list[1:]\<close>.
\<close>

definition keep_and_delete :: "drive_file list \<Rightarrow> error + drive_file \<times> drive_file list" where
  "keep_and_delete files_list =
     (case sort_reverse modified_key files_list of
        [] \<Rightarrow> Inl IndexError
      | keep # to_delete \<Rightarrow> Inr (keep, to_delete))"

text \<open>
  What the script prints, one constructor for each \<open>print\<close> with the values it
  interpolates.
\<close>

datatype event =
    Scanning string
  | Found_files nat
  | No_duplicates
  | Found_duplicates nat
  | Copies string nat
  | Keeping string string
  | Would_delete string string
  | Deleting string string
  | Deleted string string
  | Failed_to_delete string
  | Summary nat nat nat
  | Dry_run_note
  | Successfully_removed nat
  | Banner
  | Authentication_failed
  | Authentication_successful
  | Target_folder string
  | Dry_run_mode
  | Warning
  | Operation_cancelled
  | Operation_completed

text \<open>
  The Drive service is outside the script. Its delete request
  \<open>drive_service.files().delete(fileId=...).execute()\<close> is a parameter of the model: a
  function from the file id and the state of the service to the outcome and the next
  state of the service. The request returns, or raises the \<open>HttpError\<close> that
  \<open>delete_file\<close> catches, or raises another exception (a timeout, a transport error),
  which \<open>delete_file\<close> does not catch.
\<close>

datatype api_result = Executed | HttpError | Raises error

type_synonym 'g files_delete = "string \<Rightarrow> 'g \<Rightarrow> api_result \<times> 'g"

text \<open>
  The state of a run: the lines printed so far, the file ids passed to the delete request
  so far (in call order), the state of the service, and the counter \<open>total_to_delete\<close>.
\<close>

record 'g state =
  out :: "event list"
  calls :: "string list"
  drive :: 'g
  total_to_delete :: nat

definition emit :: "event \<Rightarrow> 'g state \<Rightarrow> 'g state" where
  "emit e s = s\<lparr>out := out s @ [e]\<rparr>"

text \<open>
  \<open>delete_file\<close> (lines 97 to 105): \<open>Inr True\<close> and \<open>Inr False\<close> are its two return
  values, \<open>Inl e\<close> is an exception other than \<open>HttpError\<close> passing through it.
\<close>

definition delete_file ::
  "'g files_delete \<Rightarrow> string \<Rightarrow> string \<Rightarrow> 'g state \<Rightarrow> (error + bool) \<times> 'g state" where
  "delete_file api file_id file_name s =
     (let (r, g) = api file_id (drive s);
          s = s\<lparr>calls := calls s @ [file_id], drive := g\<rparr>
      in case r of
           Executed \<Rightarrow> (Inr True, emit (Deleted file_name file_id) s)
         | HttpError \<Rightarrow> (Inr False, emit (Failed_to_delete file_name) s)
         | Raises e \<Rightarrow> (Inl e, s))"

text \<open>
  The loop \<open>for file in to_delete\<close> (lines 142 to 148). The value \<open>delete_file\<close> returns
  is not used. A result \<open>Some e\<close> is an exception leaving the loop.
\<close>

fun delete_loop ::
  "'g files_delete \<Rightarrow> bool \<Rightarrow> string \<Rightarrow> drive_file list \<Rightarrow> 'g state \<Rightarrow> error option \<times> 'g state" where
  "delete_loop api dry_run name [] s = (None, s)"
| "delete_loop api dry_run name (file # rest) s =
     (let s = s\<lparr>total_to_delete := total_to_delete s + 1\<rparr> in
      case getitem file ''id'' of
        Inl e \<Rightarrow> (Some e, s)
      | Inr file_id \<Rightarrow>
          if dry_run then
            delete_loop api dry_run name rest
              (emit (Would_delete file_id (get file ''modifiedTime'' ''N/A'')) s)
          else
            (case delete_file api file_id name
                    (emit (Deleting file_id (get file ''modifiedTime'' ''N/A'')) s) of
               (Inl e, s) \<Rightarrow> (Some e, s)
             | (Inr deleted, s) \<Rightarrow> delete_loop api dry_run name rest s))"

text \<open>The loop \<open>for name, files_list in duplicates.items()\<close> (lines 130 to 148).\<close>

fun groups_loop ::
  "'g files_delete \<Rightarrow> bool \<Rightarrow> buckets \<Rightarrow> 'g state \<Rightarrow> error option \<times> 'g state" where
  "groups_loop api dry_run [] s = (None, s)"
| "groups_loop api dry_run ((name, files_list) # rest) s =
     (let s = emit (Copies name (length files_list)) s in
      case keep_and_delete files_list of
        Inl e \<Rightarrow> (Some e, s)
      | Inr (keep, to_delete) \<Rightarrow>
          (case getitem keep ''id'' of
             Inl e \<Rightarrow> (Some e, s)
           | Inr keep_id \<Rightarrow>
               (case delete_loop api dry_run name to_delete
                       (emit (Keeping keep_id (get keep ''modifiedTime'' ''N/A'')) s) of
                  (Some e, s) \<Rightarrow> (Some e, s)
                | (None, s) \<Rightarrow> groups_loop api dry_run rest s)))"

text \<open>
  \<open>cleanup_duplicates\<close>. The argument \<open>files\<close> is what \<open>list_files_in_folder(folder_id)\<close>
  returned (the listing of the folder, or the empty list after a listing error).
\<close>

definition cleanup_duplicates ::
  "'g files_delete \<Rightarrow> string \<Rightarrow> drive_file list \<Rightarrow> bool \<Rightarrow> 'g state \<Rightarrow> error option \<times> 'g state" where
  "cleanup_duplicates api folder_id files dry_run s =
     (let s = emit (Found_files (length files)) (emit (Scanning folder_id) s) in
      case find_duplicates files of
        Inl e \<Rightarrow> (Some e, s)
      | Inr duplicates \<Rightarrow>
          if duplicates = [] then (None, emit No_duplicates s)
          else
            (case groups_loop api dry_run duplicates
                    ((emit (Found_duplicates (length duplicates)) s)\<lparr>total_to_delete := 0\<rparr>) of
               (Some e, s) \<Rightarrow> (Some e, s)
             | (None, s) \<Rightarrow>
                 (let s = emit (Summary (length files) (length duplicates) (total_to_delete s)) s
                  in if dry_run then (None, emit Dry_run_note s)
                     else (None, emit (Successfully_removed (total_to_delete s)) s))))"

section \<open>main\<close>


text \<open>
  The calls of \<open>main\<close> that leave the script are parameters, each either the value
  returned or the exception raised: \<open>authenticate\<close> for \<open>cleaner.authenticate()\<close>,
  \<open>input\<close> for the line read at line 199 (\<open>EOFError\<close> on a closed standard input), and
  \<open>listing\<close> for \<open>list_files_in_folder(folder_id)\<close>, which catches \<open>HttpError\<close> itself
  and returns the empty list then.
\<close>




definition init :: "'g \<Rightarrow> 'g state" where
  "init g = \<lparr>out = [], calls = [], drive = g, total_to_delete = 0\<rparr>"

section \<open>Notions used in the statements\<close>

text \<open>\<open>k in d\<close> for a file resource.\<close>

definition has_key :: "drive_file \<Rightarrow> string \<Rightarrow> bool" where
  "has_key d k = (map_of d k \<noteq> None)"

text \<open>The files a dict of buckets holds under a name, none when the name is not a key.\<close>

definition bucket :: "buckets \<Rightarrow> string \<Rightarrow> drive_file list" where
  "bucket d k = (case map_of d k of None \<Rightarrow> [] | Some b \<Rightarrow> b)"

text \<open>The records of the examples: two copies of \<open>x.pdf\<close> and one \<open>y.pdf\<close>.\<close>

definition file_A :: drive_file where
  "file_A = [(''id'', ''A''), (''name'', ''x.pdf''), (''modifiedTime'', ''2024-01-02'')]"

definition file_B :: drive_file where
  "file_B = [(''id'', ''B''), (''name'', ''x.pdf''), (''modifiedTime'', ''2024-01-05'')]"

definition file_C :: drive_file where
  "file_C = [(''id'', ''C''), (''name'', ''y.pdf''), (''modifiedTime'', ''2024-01-01'')]"

text \<open>A record without a name.\<close>

definition file_N :: drive_file where
  "file_N = [(''id'', ''N''), (''modifiedTime'', ''2024-01-03'')]"



text \<open>The id of a record that has one.\<close>

definition id_of :: "drive_file \<Rightarrow> string" where
  "id_of f = get f ''id'' ''''"

text \<open>The records that lines 134 to 138 mark for deletion in one group.\<close>

definition to_delete_of :: "drive_file list \<Rightarrow> drive_file list" where
  "to_delete_of files_list =
     (case keep_and_delete files_list of Inl e \<Rightarrow> [] | Inr (keep, to_delete) \<Rightarrow> to_delete)"

text \<open>The records marked for deletion in all groups, in the order in which the run visits them.\<close>

definition planned_deletions :: "buckets \<Rightarrow> drive_file list" where
  "planned_deletions duplicates =
     concat (map (\<lambda>(name, files_list). to_delete_of files_list) duplicates)"

text \<open>A service whose second delete request fails; its state counts the requests served.\<close>

definition fail_second :: "nat files_delete" where
  "fail_second file_id n = (if n = 1 then HttpError else Executed, n + 1)"

text \<open>Four copies of \<open>w.pdf\<close>, the newest first.\<close>

definition file_P :: drive_file where
  "file_P = [(''id'', ''P''), (''name'', ''w.pdf''), (''modifiedTime'', ''2024-01-04'')]"

definition file_Q :: drive_file where
  "file_Q = [(''id'', ''Q''), (''name'', ''w.pdf''), (''modifiedTime'', ''2024-01-03'')]"

definition file_R :: drive_file where
  "file_R = [(''id'', ''R''), (''name'', ''w.pdf''), (''modifiedTime'', ''2024-01-02'')]"

definition file_S :: drive_file where
  "file_S = [(''id'', ''S''), (''name'', ''w.pdf''), (''modifiedTime'', ''2024-01-01'')]"

text \<open>
  A service whose delete requests fail with \<open>HttpError\<close> only: each request returns or
  raises the exception that \<open>delete_file\<close> catches.
\<close>

definition http_only :: "'g files_delete \<Rightarrow> bool" where
  "http_only api = (\<forall>file_id g e. fst (api file_id g) \<noteq> Raises e)"

text \<open>
  The service serving delete requests for the given ids one after the other: the
  outcomes, and the state it is left in.
\<close>

fun responses :: "'g files_delete \<Rightarrow> string list \<Rightarrow> 'g \<Rightarrow> api_result list \<times> 'g" where
  "responses api [] g = ([], g)"
| "responses api (file_id # ids) g =
     (case api file_id g of
        (r, g1) \<Rightarrow> (case responses api ids g1 of (rs, g2) \<Rightarrow> (r # rs, g2)))"

text \<open>The lines of \<open>delete_file\<close> that report a failed and a completed deletion.\<close>

fun is_failure :: "event \<Rightarrow> bool" where
  "is_failure (Failed_to_delete file_name) = True"
| "is_failure e = False"

fun is_success :: "event \<Rightarrow> bool" where
  "is_success (Deleted file_name file_id) = True"
| "is_success e = False"

definition failures :: "event list \<Rightarrow> nat" where
  "failures lines = length (filter is_failure lines)"

definition successes :: "event list \<Rightarrow> nat" where
  "successes lines = length (filter is_success lines)"

text \<open>
  What a run shows of its deletions: the requests sent, the state of the service, and
  the numbers of failure and success lines printed.
\<close>

definition observe :: "'g state \<Rightarrow> string list \<times> 'g \<times> nat \<times> nat" where
  "observe s = (calls s, drive s, failures (out s), successes (out s))"

text \<open>The same after the service has served requests for the given ids, one line for each.\<close>

definition advance ::
  "'g files_delete \<Rightarrow> string list \<Rightarrow> string list \<times> 'g \<times> nat \<times> nat \<Rightarrow> string list \<times> 'g \<times> nat \<times> nat" where
  "advance api ids t =
     (case t of (sent, g, nf, ns) \<Rightarrow>
        (sent @ ids, snd (responses api ids g),
         nf + length (filter (\<lambda>r. r = HttpError) (fst (responses api ids g))),
         ns + length (filter (\<lambda>r. r = Executed) (fst (responses api ids g)))))"


text \<open>The listing of the folder once the files with the given ids are deleted.\<close>

definition apply_deletions :: "string list \<Rightarrow> drive_file list \<Rightarrow> drive_file list" where
  "apply_deletions ids files = filter (\<lambda>f. id_of f \<notin> set ids) files"



section \<open>The grouping loop\<close>

lemma getitem_Inr_iff: "getitem d k = Inr v \<longleftrightarrow> map_of d k = Some v"
  by (simp add: getitem_def split: option.splits)

lemma getitem_Inl_iff: "getitem d k = Inl e \<longleftrightarrow> map_of d k = None \<and> e = KeyError k"
  by (auto simp: getitem_def split: option.splits)

lemma map_of_map_bucket:
  "map_of (map (\<lambda>(k, b). if k = n then (k, b @ [f]) else (k, b)) d) k =
     (if k = n then map_option (\<lambda>b. b @ [f]) (map_of d k) else map_of d k)"
  by (induction d) auto

lemma map_fst_map_bucket:
  "map fst (map (\<lambda>(k, b). if k = n then (k, b @ [f]) else (k, b)) d) = map fst d"
  by (induction d) auto

lemma map_fst_add_file:
  "map fst (add_file n f d) = (if n \<in> fst ` set d then map fst d else map fst d @ [n])"
  by (auto simp: add_file_def Let_def map_fst_map_bucket map_of_eq_None_iff)

lemma map_of_add_file:
  "map_of (add_file n f d) k = (if k = n then Some (bucket d n @ [f]) else map_of d k)"
  by (auto simp: add_file_def Let_def map_of_map_bucket bucket_def map_add_def split: option.splits)

lemma bucket_add_file:
  "bucket (add_file n f d) k = (if k = n then bucket d n @ [f] else bucket d k)"
  by (simp add: bucket_def map_of_add_file)

lemma mset_concat_map_bucket:
  "distinct (map fst d) \<Longrightarrow> n \<in> fst ` set d \<Longrightarrow>
   mset (concat (map snd (map (\<lambda>(k, b). if k = n then (k, b @ [f]) else (k, b)) d))) =
     add_mset f (mset (concat (map snd d)))"
proof (induction d)
  case Nil
  then show ?case by simp
next
  case (Cons p d)
  obtain k b where p: "p = (k, b)" by (cases p)
  show ?case
  proof (cases "k = n")
    case True
    with Cons.prems p have "n \<notin> fst ` set d" by auto
    then have "map (\<lambda>(k, b). if k = n then (k, b @ [f]) else (k, b)) d = d"
      by (intro map_idI) (auto simp: image_iff split: prod.splits)
    with True p show ?thesis by simp
  next
    case False
    with Cons p show ?thesis by auto
  qed
qed

lemma mset_concat_add_file:
  assumes dist: "distinct (map fst d)"
  shows "mset (concat (map snd (add_file n f d))) = add_mset f (mset (concat (map snd d)))"
proof (cases "n \<in> fst ` set d")
  case True
  then have "add_file n f d = map (\<lambda>(k, b). if k = n then (k, b @ [f]) else (k, b)) d"
    by (simp add: add_file_def map_of_eq_None_iff)
  with True dist show ?thesis
    by (simp only: mset_concat_map_bucket)
next
  case False
  then have eq: "add_file n f d =
      map (\<lambda>(k, b). if k = n then (k, b @ [f]) else (k, b)) (d @ [(n, [])])"
    by (simp add: add_file_def map_of_eq_None_iff)
  from False dist have "distinct (map fst (d @ [(n, [])]))" by auto
  moreover have "n \<in> fst ` set (d @ [(n, [])])" by simp
  ultimately have "mset (concat (map snd (map (\<lambda>(k, b). if k = n then (k, b @ [f]) else (k, b)) (d @ [(n, [])])))) =
     add_mset f (mset (concat (map snd (d @ [(n, [])]))))"
    by (rule mset_concat_map_bucket)
  then show ?thesis
    by (simp only: eq) simp
qed

lemma keys_add_file: "fst ` set (add_file n f d) = insert n (fst ` set d)"
proof -
  have "fst ` set (add_file n f d) = set (map fst (add_file n f d))" by simp
  also have "\<dots> = insert n (fst ` set d)"
    by (simp only: map_fst_add_file) auto
  finally show ?thesis .
qed

lemma distinct_add_file: "distinct (map fst d) \<Longrightarrow> distinct (map fst (add_file n f d))"
  by (simp add: map_fst_add_file)

lemma group_by_name_total:
  "\<forall>f\<in>set fs. map_of f ''name'' \<noteq> None \<Longrightarrow> \<exists>vs'. group_by_name fs vs = Inr vs'"
  by (induction fs arbitrary: vs) (auto simp: getitem_def split: option.splits)

lemma group_by_name_error:
  "\<exists>f\<in>set fs. map_of f ''name'' = None \<Longrightarrow> group_by_name fs vs = Inl (KeyError ''name'')"
  by (induction fs arbitrary: vs) (auto simp: getitem_def split: option.splits)

lemma group_by_name_files:
  "group_by_name fs vs = Inr vs' \<Longrightarrow> v_files vs' = v_files vs"
  by (induction fs arbitrary: vs) (auto split: sum.splits)

lemma group_by_name_keys:
  "group_by_name fs vs = Inr vs' \<Longrightarrow>
   fst ` set (v_duplicates vs') =
     fst ` set (v_duplicates vs) \<union> {n. \<exists>f\<in>set fs. getitem f ''name'' = Inr n}"
proof (induction fs arbitrary: vs)
  case Nil
  then show ?case by simp
next
  case (Cons f fs)
  from Cons.prems obtain n where n: "getitem f ''name'' = Inr n"
    and rest: "group_by_name fs (vs\<lparr>v_duplicates := add_file n f (v_duplicates vs)\<rparr>) = Inr vs'"
    by (auto split: sum.splits)
  from Cons.IH [OF rest] n show ?case
    by (auto simp: keys_add_file)
qed

lemma group_by_name_distinct:
  "group_by_name fs vs = Inr vs' \<Longrightarrow> distinct (map fst (v_duplicates vs)) \<Longrightarrow>
   distinct (map fst (v_duplicates vs'))"
proof (induction fs arbitrary: vs)
  case Nil
  then show ?case by simp
next
  case (Cons f fs)
  from Cons.prems(1) obtain n where n: "getitem f ''name'' = Inr n"
    and rest: "group_by_name fs (vs\<lparr>v_duplicates := add_file n f (v_duplicates vs)\<rparr>) = Inr vs'"
    by (auto split: sum.splits)
  show ?case
    by (rule Cons.IH [OF rest]) (simp add: distinct_add_file Cons.prems(2))
qed

lemma group_by_name_bucket:
  "group_by_name fs vs = Inr vs' \<Longrightarrow>
   bucket (v_duplicates vs') k =
     bucket (v_duplicates vs) k @ filter (\<lambda>f. getitem f ''name'' = Inr k) fs"
proof (induction fs arbitrary: vs)
  case Nil
  then show ?case by simp
next
  case (Cons f fs)
  from Cons.prems obtain n where n: "getitem f ''name'' = Inr n"
    and rest: "group_by_name fs (vs\<lparr>v_duplicates := add_file n f (v_duplicates vs)\<rparr>) = Inr vs'"
    by (auto split: sum.splits)
  from Cons.IH [OF rest] n show ?case
    by (simp add: bucket_add_file)
qed

lemma group_by_name_mset:
  "group_by_name fs vs = Inr vs' \<Longrightarrow> distinct (map fst (v_duplicates vs)) \<Longrightarrow>
   mset (concat (map snd (v_duplicates vs'))) =
     mset (concat (map snd (v_duplicates vs))) + mset fs"
proof (induction fs arbitrary: vs)
  case Nil
  then show ?case by simp
next
  case (Cons f fs)
  from Cons.prems(1) obtain n where n: "getitem f ''name'' = Inr n"
    and rest: "group_by_name fs (vs\<lparr>v_duplicates := add_file n f (v_duplicates vs)\<rparr>) = Inr vs'"
    by (auto split: sum.splits)
  have "mset (concat (map snd (v_duplicates vs'))) =
      mset (concat (map snd (add_file n f (v_duplicates vs)))) + mset fs"
    using Cons.IH [OF rest] Cons.prems(2) by (simp add: distinct_add_file)
  with Cons.prems(2) show ?case
    by (simp add: mset_concat_add_file)
qed

section \<open>Properties of find\_duplicates\<close>

text \<open>
  Claim C10. \<open>find_duplicates\<close> needs the key \<open>name\<close> in every record: when every
  record of the input has it, the function returns a dict; when some record lacks it,
  the function raises \<open>KeyError('name')\<close>.
\<close>

theorem find_duplicates_name_required:
  "(list_all (\<lambda>f. has_key f ''name'') files \<longrightarrow> (\<exists>duplicates. find_duplicates files = Inr duplicates)) \<and>
   (\<not> list_all (\<lambda>f. has_key f ''name'') files \<longrightarrow> find_duplicates files = Inl (KeyError ''name''))"
proof (intro conjI impI)
  assume "list_all (\<lambda>f. has_key f ''name'') files"
  then have "\<forall>f\<in>set files. map_of f ''name'' \<noteq> None"
    by (simp add: list_all_iff has_key_def)
  then obtain vs where "group_by_name files \<lparr>v_files = files, v_duplicates = []\<rparr> = Inr vs"
    using group_by_name_total by blast
  then show "\<exists>duplicates. find_duplicates files = Inr duplicates"
    by (simp add: find_duplicates_def find_duplicates_vars_def)
next
  assume "\<not> list_all (\<lambda>f. has_key f ''name'') files"
  then have "\<exists>f\<in>set files. map_of f ''name'' = None"
    by (simp add: list_all_iff has_key_def)
  then have "group_by_name files \<lparr>v_files = files, v_duplicates = []\<rparr> = Inl (KeyError ''name'')"
    by (rule group_by_name_error)
  then show "find_duplicates files = Inl (KeyError ''name'')"
    by (simp add: find_duplicates_def find_duplicates_vars_def)
qed

text \<open>A listing of named records is grouped; one record without a name raises.\<close>

theorem find_duplicates_name_required_witness:
  "list_all (\<lambda>f. has_key f ''name'') [file_A, file_B] \<and>
   (\<exists>duplicates. find_duplicates [file_A, file_B] = Inr duplicates) \<and>
   \<not> list_all (\<lambda>f. has_key f ''name'') [file_A, file_N, file_B] \<and>
   find_duplicates [file_A, file_N, file_B] = Inl (KeyError ''name'')"
  using find_duplicates_name_required [of "[file_A, file_B]"]
    find_duplicates_name_required [of "[file_A, file_N, file_B]"]
  by (simp add: has_key_def file_A_def file_B_def file_N_def)

lemma map_of_bucket_distinct:
  "distinct (map fst d) \<Longrightarrow> (n, b) \<in> set d \<Longrightarrow> bucket d n = b"
  by (simp add: bucket_def)

lemma in_keys_bucket: "n \<in> fst ` set d \<Longrightarrow> (n, bucket d n) \<in> set d"
  by (auto simp: bucket_def dest: map_of_SomeD split: option.splits simp: map_of_eq_None_iff image_iff)

text \<open>
  Claim C5. The grouping loop of \<open>find_duplicates\<close> (lines 85 to 91, before the filter
  of line 94) partitions its input. Started on the empty dict with records that all
  carry a name, it ends with a dict whose keys are distinct; the bucket under a name
  is the list of the input records of that name, in input order, and is not empty
  (buckets of one record included); every input record is in exactly one bucket, the
  one keyed by its name; and the buckets together hold the input records, each as
  often as the input does.
\<close>

theorem group_by_name_partitions:
  assumes "\<forall>f\<in>set files. has_key f ''name''"
  shows "\<exists>vs. group_by_name files \<lparr>v_files = files, v_duplicates = []\<rparr> = Inr vs \<and>
           distinct (map fst (v_duplicates vs)) \<and>
           (\<forall>(name, files_list)\<in>set (v_duplicates vs).
              files_list = filter (\<lambda>f. getitem f ''name'' = Inr name) files \<and> files_list \<noteq> []) \<and>
           (\<forall>f\<in>set files. \<exists>!p. p \<in> set (v_duplicates vs) \<and> f \<in> set (snd p)) \<and>
           (\<forall>f\<in>set files. \<forall>p\<in>set (v_duplicates vs). f \<in> set (snd p) \<longrightarrow> getitem f ''name'' = Inr (fst p)) \<and>
           mset (concat (map snd (v_duplicates vs))) = mset files"
proof -
  from assms have "\<forall>f\<in>set files. map_of f ''name'' \<noteq> None"
    by (simp add: has_key_def)
  then obtain vs where vs: "group_by_name files \<lparr>v_files = files, v_duplicates = []\<rparr> = Inr vs"
    using group_by_name_total by blast
  have dist: "distinct (map fst (v_duplicates vs))"
    using group_by_name_distinct [OF vs] by simp
  have keys: "fst ` set (v_duplicates vs) = {n. \<exists>f\<in>set files. getitem f ''name'' = Inr n}"
    using group_by_name_keys [OF vs] by simp
  have bucket: "bucket (v_duplicates vs) k = filter (\<lambda>f. getitem f ''name'' = Inr k) files" for k
    using group_by_name_bucket [OF vs, of k] by (simp add: bucket_def)
  have members: "b = filter (\<lambda>f. getitem f ''name'' = Inr n) files \<and> b \<noteq> []"
    if "(n, b) \<in> set (v_duplicates vs)" for n b
  proof -
    from dist that have "bucket (v_duplicates vs) n = b"
      by (rule map_of_bucket_distinct)
    then have b: "b = filter (\<lambda>f. getitem f ''name'' = Inr n) files"
      by (simp add: bucket)
    from that have "n \<in> fst ` set (v_duplicates vs)" by force
    with keys obtain f where "f \<in> set files" "getitem f ''name'' = Inr n" by auto
    then have "filter (\<lambda>f. getitem f ''name'' = Inr n) files \<noteq> []"
      by (auto simp: filter_empty_conv)
    with b show ?thesis by simp
  qed
  have one: "\<exists>!p. p \<in> set (v_duplicates vs) \<and> f \<in> set (snd p)" if f: "f \<in> set files" for f
  proof -
    from assms f obtain n where n: "getitem f ''name'' = Inr n"
      by (auto simp: has_key_def getitem_def)
    with f keys have "n \<in> fst ` set (v_duplicates vs)" by auto
    then have inb: "(n, bucket (v_duplicates vs) n) \<in> set (v_duplicates vs)"
      by (rule in_keys_bucket)
    from f n have mem: "f \<in> set (bucket (v_duplicates vs) n)"
      by (simp add: bucket)
    have uniq: "p = (n, bucket (v_duplicates vs) n)"
      if "p \<in> set (v_duplicates vs)" "f \<in> set (snd p)" for p
    proof -
      obtain m b where p: "p = (m, b)" by (cases p)
      from that p have mb: "(m, b) \<in> set (v_duplicates vs)" and fb: "f \<in> set b" by simp_all
      from members [OF mb] fb have "getitem f ''name'' = Inr m" by simp
      with n have "m = n" by simp
      moreover from dist mb have "bucket (v_duplicates vs) m = b"
        by (rule map_of_bucket_distinct)
      ultimately show ?thesis using p by simp
    qed
    show ?thesis
    proof (rule ex1I)
      show "(n, bucket (v_duplicates vs) n) \<in> set (v_duplicates vs) \<and>
          f \<in> set (snd (n, bucket (v_duplicates vs) n))"
        using inb mem by simp
    next
      fix p
      assume "p \<in> set (v_duplicates vs) \<and> f \<in> set (snd p)"
      then show "p = (n, bucket (v_duplicates vs) n)"
        using uniq by blast
    qed
  qed
  have named: "getitem f ''name'' = Inr (fst p)"
    if "p \<in> set (v_duplicates vs)" "f \<in> set (snd p)" for f p
    using that members [of "fst p" "snd p"] by auto
  have buckets: "\<forall>(name, files_list)\<in>set (v_duplicates vs).
      files_list = filter (\<lambda>f. getitem f ''name'' = Inr name) files \<and> files_list \<noteq> []"
  proof (rule ballI)
    fix p
    assume p: "p \<in> set (v_duplicates vs)"
    obtain n b where nb: "p = (n, b)" by (cases p)
    from p nb have "(n, b) \<in> set (v_duplicates vs)" by simp
    from members [OF this]
    show "case p of (name, files_list) \<Rightarrow>
        files_list = filter (\<lambda>f. getitem f ''name'' = Inr name) files \<and> files_list \<noteq> []"
      unfolding nb prod.case .
  qed
  have all: "mset (concat (map snd (v_duplicates vs))) = mset files"
    using group_by_name_mset [OF vs] by simp
  show ?thesis
  proof (intro exI [of _ vs] conjI)
    show "\<forall>f\<in>set files. \<exists>!p. p \<in> set (v_duplicates vs) \<and> f \<in> set (snd p)"
      using one by blast
    show "\<forall>f\<in>set files. \<forall>p\<in>set (v_duplicates vs).
        f \<in> set (snd p) \<longrightarrow> getitem f ''name'' = Inr (fst p)"
      using named by blast
  qed (fact vs dist buckets all)+
qed

lemmas ex = file_A_def file_B_def file_C_def

lemma ex_group: "group_by_name [file_A, file_B, file_C] \<lparr>v_files = [file_A, file_B, file_C], v_duplicates = []\<rparr>
  = Inr \<lparr>v_files = [file_A, file_B, file_C], v_duplicates = [(''x.pdf'', [file_A, file_B]), (''y.pdf'', [file_C])]\<rparr>"
  by (simp add: ex getitem_def add_file_def)

text \<open>The loop on the example records: two buckets, one of them of a single record.\<close>

theorem group_by_name_partitions_witness:
  "list_all (\<lambda>f. has_key f ''name'') [file_A, file_B, file_C] \<and>
   (\<exists>vs. group_by_name [file_A, file_B, file_C]
            \<lparr>v_files = [file_A, file_B, file_C], v_duplicates = []\<rparr> = Inr vs \<and>
         v_duplicates vs = [(''x.pdf'', [file_A, file_B]), (''y.pdf'', [file_C])] \<and>
         mset (concat (map snd (v_duplicates vs))) = mset [file_A, file_B, file_C])"
proof -
  have h: "\<forall>f\<in>set [file_A, file_B, file_C]. has_key f ''name''"
    by (simp add: has_key_def ex)
  from group_by_name_partitions [OF h] obtain vs
    where vs: "group_by_name [file_A, file_B, file_C]
                 \<lparr>v_files = [file_A, file_B, file_C], v_duplicates = []\<rparr> = Inr vs"
      and all: "mset (concat (map snd (v_duplicates vs))) = mset [file_A, file_B, file_C]"
    by blast
  from vs have "v_duplicates vs = [(''x.pdf'', [file_A, file_B]), (''y.pdf'', [file_C])]"
    unfolding ex_group by auto
  moreover from h have "list_all (\<lambda>f. has_key f ''name'') [file_A, file_B, file_C]"
    by (simp only: list_all_iff)
  ultimately show ?thesis using vs all by blast
qed

lemma keys_filter_buckets:
  "distinct (map fst d) \<Longrightarrow>
   fst ` set (filter (\<lambda>(name, files_list). length files_list > 1) d) =
     {n. length (bucket d n) > 1}"
proof (intro set_eqI iffI)
  fix n
  assume dist: "distinct (map fst d)"
    and "n \<in> fst ` set (filter (\<lambda>(name, files_list). length files_list > 1) d)"
  then obtain b where "(n, b) \<in> set d" "length b > 1" by auto
  with dist show "n \<in> {n. length (bucket d n) > 1}"
    by (simp add: map_of_bucket_distinct)
next
  fix n
  assume "n \<in> {n. length (bucket d n) > 1}"
  then have len: "length (bucket d n) > 1" by simp
  then have "map_of d n \<noteq> None" by (auto simp: bucket_def split: option.splits)
  then have "n \<in> fst ` set d" by (simp add: map_of_eq_None_iff)
  then have "(n, bucket d n) \<in> set d" by (rule in_keys_bucket)
  with len show "n \<in> fst ` set (filter (\<lambda>(name, files_list). length files_list > 1) d)"
    by force
qed

lemma find_duplicates_Inr:
  assumes "find_duplicates files = Inr duplicates"
  shows "\<exists>vs. group_by_name files \<lparr>v_files = files, v_duplicates = []\<rparr> = Inr vs \<and>
     duplicates = filter (\<lambda>(name, files_list). length files_list > 1) (v_duplicates vs)"
  using assms by (auto simp: find_duplicates_def find_duplicates_vars_def split: sum.splits)

lemma grouped_bucket:
  assumes "group_by_name files \<lparr>v_files = files, v_duplicates = []\<rparr> = Inr vs"
  shows "bucket (v_duplicates vs) n = filter (\<lambda>f. getitem f ''name'' = Inr n) files"
  using group_by_name_bucket [OF assms, of n] by (simp add: bucket_def)

lemma grouped_distinct:
  assumes "group_by_name files \<lparr>v_files = files, v_duplicates = []\<rparr> = Inr vs"
  shows "distinct (map fst (v_duplicates vs))"
  using group_by_name_distinct [OF assms] by simp

lemma find_duplicates_member:
  assumes "find_duplicates files = Inr duplicates" and "(n, b) \<in> set duplicates"
  shows "b = filter (\<lambda>f. getitem f ''name'' = Inr n) files" and "length b > 1"
proof -
  from find_duplicates_Inr [OF assms(1)] obtain vs
    where vs: "group_by_name files \<lparr>v_files = files, v_duplicates = []\<rparr> = Inr vs"
      and d: "duplicates = filter (\<lambda>(name, files_list). length files_list > 1) (v_duplicates vs)"
    by blast
  from assms(2) d have mem: "(n, b) \<in> set (v_duplicates vs)" and len: "length b > 1" by auto
  from grouped_distinct [OF vs] mem have "bucket (v_duplicates vs) n = b"
    by (rule map_of_bucket_distinct)
  then show "b = filter (\<lambda>f. getitem f ''name'' = Inr n) files"
    by (simp add: grouped_bucket [OF vs])
  from len show "length b > 1" .
qed

lemma find_duplicates_keys:
  assumes "find_duplicates files = Inr duplicates"
  shows "fst ` set duplicates = {n. length (filter (\<lambda>f. getitem f ''name'' = Inr n) files) > 1}"
    and "distinct (map fst duplicates)"
proof -
  from find_duplicates_Inr [OF assms(1)] obtain vs
    where vs: "group_by_name files \<lparr>v_files = files, v_duplicates = []\<rparr> = Inr vs"
      and d: "duplicates = filter (\<lambda>(name, files_list). length files_list > 1) (v_duplicates vs)"
    by blast
  show "fst ` set duplicates = {n. length (filter (\<lambda>f. getitem f ''name'' = Inr n) files) > 1}"
    unfolding d using keys_filter_buckets [OF grouped_distinct [OF vs]]
    by (simp add: grouped_bucket [OF vs])
  show "distinct (map fst duplicates)"
    unfolding d using grouped_distinct [OF vs] by (rule distinct_map_filter)
qed

text \<open>
  Claim C9. The filter of line 94 keeps the buckets of more than one record and changes
  nothing else. On records that all carry a name, \<open>find_duplicates\<close> returns a dict in
  which every bucket has more than one record and is the list of the input records of
  its name in input order; its keys are exactly the names that at least two input
  records have; and the argument \<open>files\<close> has at the end the value it had at the start.
\<close>

theorem find_duplicates_keeps_multiples:
  assumes "\<forall>f\<in>set files. has_key f ''name''"
  shows "\<exists>vs. find_duplicates_vars files = Inr vs \<and>
           find_duplicates files = Inr (v_duplicates vs) \<and>
           v_files vs = files \<and>
           (\<forall>(name, files_list)\<in>set (v_duplicates vs).
              length files_list > 1 \<and>
              files_list = filter (\<lambda>f. getitem f ''name'' = Inr name) files) \<and>
           fst ` set (v_duplicates vs) =
             {name. length (filter (\<lambda>f. getitem f ''name'' = Inr name) files) \<ge> 2} \<and>
           distinct (map fst (v_duplicates vs))"
proof -
  from assms have "\<forall>f\<in>set files. map_of f ''name'' \<noteq> None"
    by (simp add: has_key_def)
  then obtain gs where gs: "group_by_name files \<lparr>v_files = files, v_duplicates = []\<rparr> = Inr gs"
    using group_by_name_total by blast
  define vs where
    "vs = gs\<lparr>v_duplicates := filter (\<lambda>(name, files_list). length files_list > 1) (v_duplicates gs)\<rparr>"
  have run: "find_duplicates_vars files = Inr vs"
    by (simp add: find_duplicates_vars_def gs vs_def)
  then have ret: "find_duplicates files = Inr (v_duplicates vs)"
    by (simp add: find_duplicates_def)
  have unchanged: "v_files vs = files"
    using group_by_name_files [OF gs] by (simp add: vs_def)
  have members: "\<forall>(name, files_list)\<in>set (v_duplicates vs).
      length files_list > 1 \<and> files_list = filter (\<lambda>f. getitem f ''name'' = Inr name) files"
  proof (rule ballI)
    fix p
    assume p: "p \<in> set (v_duplicates vs)"
    obtain n b where nb: "p = (n, b)" by (cases p)
    from p nb have "(n, b) \<in> set (v_duplicates vs)" by simp
    from find_duplicates_member [OF ret this]
    have "length b > 1 \<and> b = filter (\<lambda>f. getitem f ''name'' = Inr n) files" by simp
    then show "case p of (name, files_list) \<Rightarrow>
        length files_list > 1 \<and> files_list = filter (\<lambda>f. getitem f ''name'' = Inr name) files"
      unfolding nb prod.case .
  qed
  have keys: "fst ` set (v_duplicates vs) =
      {name. length (filter (\<lambda>f. getitem f ''name'' = Inr name) files) \<ge> 2}"
    using find_duplicates_keys(1) [OF ret] by (auto simp: Suc_le_eq numeral_2_eq_2)
  from run ret unchanged members keys find_duplicates_keys(2) [OF ret]
  show ?thesis by blast
qed

lemma ex_find: "find_duplicates_vars [file_A, file_B, file_C] =
   Inr \<lparr>v_files = [file_A, file_B, file_C], v_duplicates = [(''x.pdf'', [file_A, file_B])]\<rparr>"
  unfolding find_duplicates_vars_def ex_group by simp

text \<open>On the example records only the bucket of \<open>x.pdf\<close> is returned.\<close>

theorem find_duplicates_keeps_multiples_witness:
  "list_all (\<lambda>f. has_key f ''name'') [file_A, file_B, file_C] \<and>
   (\<exists>vs. find_duplicates_vars [file_A, file_B, file_C] = Inr vs \<and>
         find_duplicates [file_A, file_B, file_C] = Inr (v_duplicates vs) \<and>
         v_files vs = [file_A, file_B, file_C] \<and>
         v_duplicates vs = [(''x.pdf'', [file_A, file_B])])"
proof -
  have h: "\<forall>f\<in>set [file_A, file_B, file_C]. has_key f ''name''"
    by (simp add: has_key_def ex)
  from find_duplicates_keeps_multiples [OF h] obtain vs
    where vs: "find_duplicates_vars [file_A, file_B, file_C] = Inr vs"
      and ret: "find_duplicates [file_A, file_B, file_C] = Inr (v_duplicates vs)"
      and unchanged: "v_files vs = [file_A, file_B, file_C]"
    by blast
  from vs have "v_duplicates vs = [(''x.pdf'', [file_A, file_B])]"
    unfolding ex_find by auto
  moreover from h have "list_all (\<lambda>f. has_key f ''name'') [file_A, file_B, file_C]"
    by (simp only: list_all_iff)
  ultimately show ?thesis using vs ret unchanged by blast
qed

section \<open>The sort and the choice of the record to keep\<close>

lemma mset_sort_reverse: "mset (sort_reverse key xs) = mset xs"
  by (simp add: sort_reverse_def)

lemma length_sort_reverse: "length (sort_reverse key xs) = length xs"
  by (simp add: sort_reverse_def)

lemma set_sort_reverse: "set (sort_reverse key xs) = set xs"
  by (simp add: sort_reverse_def)


lemma sort_reverse_descending:
  "sort_reverse key xs = y # ys \<Longrightarrow> \<forall>z\<in>set ys. key z \<le> key y"
proof -
  assume eq: "sort_reverse key xs = y # ys"
  have "sorted (map key (sort_key key (rev xs)))" by (rule sorted_sort_key)
  moreover from eq have "sort_key key (rev xs) = rev ys @ [y]"
    by (metis rev.simps(2) rev_rev_ident sort_reverse_def)
  ultimately have "sorted (map key (rev ys) @ [key y])" by simp
  then show ?thesis by (auto simp: sorted_append)
qed

lemma keep_and_delete_Inr:
  assumes "files_list \<noteq> []"
  shows "\<exists>keep to_delete. keep_and_delete files_list = Inr (keep, to_delete) \<and>
           sort_reverse modified_key files_list = keep # to_delete"
proof -
  from assms have "length (sort_reverse modified_key files_list) \<noteq> 0"
    by (simp add: length_sort_reverse)
  then obtain keep to_delete where "sort_reverse modified_key files_list = keep # to_delete"
    by (cases "sort_reverse modified_key files_list") auto
  then show ?thesis by (simp add: keep_and_delete_def)
qed

lemma keep_and_delete_sorted:
  assumes "keep_and_delete files_list = Inr (keep, to_delete)"
  shows "sort_reverse modified_key files_list = keep # to_delete"
  using assms by (auto simp: keep_and_delete_def split: list.splits)

lemma keep_and_delete_mset:
  assumes "keep_and_delete files_list = Inr (keep, to_delete)"
  shows "mset (keep # to_delete) = mset files_list"
  using mset_sort_reverse [of modified_key files_list]
  by (simp only: keep_and_delete_sorted [OF assms])

lemma keep_and_delete_newest:
  assumes "keep_and_delete files_list = Inr (keep, to_delete)"
  shows "\<forall>d\<in>set to_delete. modified_key d \<le> modified_key keep"
  using sort_reverse_descending [OF keep_and_delete_sorted [OF assms]] .

text \<open>
  Claim C1. For a group of at least two records, lines 134 to 138 of
  \<open>cleanup_duplicates\<close> give one record to keep and a list to delete: the kept record
  together with the records to delete are the records of the group, each as often as
  the group has it; the list to delete has one record less than the group; the
  \<open>modifiedTime\<close> of the kept record (the empty string when the key is missing) is
  greater than or equal to that of every record to delete; when the records of the
  group differ from each other, the kept record is not among the records to delete;
  and the sort key of a record without \<open>modifiedTime\<close> is the empty string, which is
  less than or equal to every other key.
\<close>

theorem keep_and_delete_plan:
  assumes "length files_list \<ge> 2"
  shows "\<exists>keep to_delete. keep_and_delete files_list = Inr (keep, to_delete) \<and>
           mset (keep # to_delete) = mset files_list \<and>
           length to_delete = length files_list - 1 \<and>
           (\<forall>d\<in>set to_delete. modified_key d \<le> modified_key keep) \<and>
           (distinct files_list \<longrightarrow> keep \<notin> set to_delete \<and> distinct to_delete) \<and>
           (\<forall>f g. \<not> has_key f ''modifiedTime'' \<longrightarrow>
              modified_key f = [] \<and> modified_key f \<le> modified_key g)"
proof -
  from assms have "files_list \<noteq> []" by auto
  from keep_and_delete_Inr [OF this] obtain keep to_delete
    where plan: "keep_and_delete files_list = Inr (keep, to_delete)" by blast
  have all: "mset (keep # to_delete) = mset files_list"
    by (rule keep_and_delete_mset [OF plan])
  then have "length (keep # to_delete) = length files_list"
    by (rule mset_eq_length)
  then have len: "length to_delete = length files_list - 1" by simp
  have newest: "\<forall>d\<in>set to_delete. modified_key d \<le> modified_key keep"
    by (rule keep_and_delete_newest [OF plan])
  have disjoint: "keep \<notin> set to_delete \<and> distinct to_delete" if "distinct files_list"
  proof -
    from all that have "distinct (keep # to_delete)"
      by (metis mset_eq_imp_distinct_iff)
    then show ?thesis by simp
  qed
  have missing: "modified_key f = [] \<and> modified_key f \<le> modified_key g"
    if "\<not> has_key f ''modifiedTime''" for f g
    using that by (simp add: has_key_def modified_key_def get_def)
  from plan all len newest disjoint missing show ?thesis by blast
qed

text \<open>The example group of \<open>x.pdf\<close>: the newer record B is kept, A is deleted.\<close>

theorem keep_and_delete_plan_witness:
  "length [file_A, file_B] \<ge> 2 \<and>
   keep_and_delete [file_A, file_B] = Inr (file_B, [file_A]) \<and>
   modified_key file_A \<le> modified_key file_B"
proof -
  have h: "length [file_A, file_B] \<ge> 2" by simp
  have plan: "keep_and_delete [file_A, file_B] = Inr (file_B, [file_A])"
    by (simp add: keep_and_delete_def sort_reverse_def modified_key_def get_def file_A_def file_B_def)
  from keep_and_delete_plan [OF h] obtain keep to_delete
    where "keep_and_delete [file_A, file_B] = Inr (keep, to_delete)"
      and "\<forall>d\<in>set to_delete. modified_key d \<le> modified_key keep"
    by blast
  with plan have "modified_key file_A \<le> modified_key file_B" by simp
  with h plan show ?thesis by blast
qed





section \<open>Runs of cleanup\_duplicates\<close>

lemma emit_simps [simp]:
  "out (emit e s) = out s @ [e]" "calls (emit e s) = calls s" "drive (emit e s) = drive s"
  "total_to_delete (emit e s) = total_to_delete s"
  by (simp_all add: emit_def)

lemma delete_file_calls: "calls (snd (delete_file api file_id name s)) = calls s @ [file_id]"
  by (simp add: delete_file_def Let_def split: prod.splits api_result.splits)

lemma delete_file_total:
  "total_to_delete (snd (delete_file api file_id name s)) = total_to_delete s"
  by (simp add: delete_file_def Let_def split: prod.splits api_result.splits)

lemma observe_emit [simp]:
  "\<not> is_failure e \<Longrightarrow> \<not> is_success e \<Longrightarrow> observe (emit e s) = observe s"
  by (simp add: observe_def failures_def successes_def)

lemma observe_total [simp]: "observe (s\<lparr>total_to_delete := n\<rparr>) = observe s"
  by (simp add: observe_def)

lemma responses_append:
  "responses api (xs @ ys) g =
     (fst (responses api xs g) @ fst (responses api ys (snd (responses api xs g))),
      snd (responses api ys (snd (responses api xs g))))"
  by (induction xs arbitrary: g) (simp_all split: prod.splits)

lemma advance_Nil [simp]: "advance api [] t = t"
  by (cases t) (simp add: advance_def)

lemma advance_append: "advance api (xs @ ys) t = advance api ys (advance api xs t)"
  by (cases t) (simp add: advance_def responses_append)

lemma delete_file_http:
  assumes "http_only api"
  shows "\<exists>deleted. fst (delete_file api file_id name s) = Inr deleted"
    and "observe (snd (delete_file api file_id name s)) = advance api [file_id] (observe s)"
proof -
  obtain r g where r: "api file_id (drive s) = (r, g)" by (cases "api file_id (drive s)")
  from assms have "fst (api file_id (drive s)) \<noteq> Raises e" for e
    by (simp add: http_only_def)
  with r have "r = Executed \<or> r = HttpError"
    by (cases r) auto
  then show "\<exists>deleted. fst (delete_file api file_id name s) = Inr deleted"
    and "observe (snd (delete_file api file_id name s)) = advance api [file_id] (observe s)"
    by (auto simp: delete_file_def r observe_def advance_def failures_def successes_def emit_def)
qed

lemma getitem_id: "has_key f ''id'' \<Longrightarrow> getitem f ''id'' = Inr (id_of f)"
  by (auto simp: has_key_def getitem_def id_of_def get_def)

lemma delete_loop_dry:
  "calls (snd (delete_loop api True name fs s)) = calls s \<and>
   drive (snd (delete_loop api True name fs s)) = drive s"
  by (induction fs arbitrary: s) (simp_all add: Let_def split: sum.splits)

lemma groups_loop_dry:
  "calls (snd (groups_loop api True d s)) = calls s \<and>
   drive (snd (groups_loop api True d s)) = drive s"
proof (induction d arbitrary: s)
  case Nil
  then show ?case by simp
next
  case (Cons p d)
  obtain name files_list where p: "p = (name, files_list)" by (cases p)
  show ?case
  proof (cases "keep_and_delete files_list")
    case (Inl e)
    with p show ?thesis by simp
  next
    case (Inr kd)
    obtain keep to_delete where kd: "kd = (keep, to_delete)" by (cases kd)
    show ?thesis
    proof (cases "getitem keep ''id''")
      case (Inl e)
      with p Inr kd show ?thesis by simp
    next
      case keep_id: (Inr keep_id)
      let ?s1 = "emit (Keeping keep_id (get keep ''modifiedTime'' ''N/A''))
                   (emit (Copies name (length files_list)) s)"
      obtain r s2 where loop: "delete_loop api True name to_delete ?s1 = (r, s2)"
        by (cases "delete_loop api True name to_delete ?s1")
      from delete_loop_dry [of api name to_delete ?s1] loop
      have s2: "calls s2 = calls s" "drive s2 = drive s" by simp_all
      show ?thesis
      proof (cases r)
        case None
        with p Inr kd keep_id loop s2 Cons.IH [of s2] show ?thesis by simp
      next
        case (Some e)
        with p Inr kd keep_id loop s2 show ?thesis by simp
      qed
    qed
  qed
qed

text \<open>
  Claim C3. A dry run sends no delete request: whatever the listing, the folder id, the
  service and the state before, after \<open>cleanup_duplicates\<close> with \<open>dry_run\<close> true the
  list of delete requests is the one before the call, and so is the state of the
  service, also when the run ends in an exception.
\<close>

theorem dry_run_never_deletes:
  "calls (snd (cleanup_duplicates api folder_id files True s)) = calls s \<and>
   drive (snd (cleanup_duplicates api folder_id files True s)) = drive s \<and>
   calls (snd (cleanup_duplicates api folder_id files True (init g))) = []"
proof -
  have run: "calls (snd (cleanup_duplicates api folder_id files True s)) = calls s \<and>
      drive (snd (cleanup_duplicates api folder_id files True s)) = drive s" for s :: "'a state"
  proof (cases "find_duplicates files")
    case (Inl e)
    then show ?thesis by (simp add: cleanup_duplicates_def)
  next
    case (Inr duplicates)
    let ?s1 = "(emit (Found_duplicates (length duplicates))
        (emit (Found_files (length files)) (emit (Scanning folder_id) s)))\<lparr>total_to_delete := 0\<rparr>"
    obtain r s2 where loop: "groups_loop api True duplicates ?s1 = (r, s2)"
      by (cases "groups_loop api True duplicates ?s1")
    from groups_loop_dry [of api duplicates ?s1] loop
    have "calls s2 = calls s" "drive s2 = drive s" by simp_all
    with Inr loop show ?thesis
      by (cases r) (simp_all add: cleanup_duplicates_def Let_def)
  qed
  from run [of s] run [of "init g"] show ?thesis by (simp add: init_def)
qed

text \<open>A dry run on the example listing, with a service that would fail.\<close>

theorem dry_run_never_deletes_witness:
  "calls (snd (cleanup_duplicates fail_second ''F'' [file_A, file_B, file_C] True (init 0))) = [] \<and>
   drive (snd (cleanup_duplicates fail_second ''F'' [file_A, file_B, file_C] True (init 0))) = 0"
  using dry_run_never_deletes [of fail_second "''F''" "[file_A, file_B, file_C]" "init 0" 0]
  by (simp add: init_def)

lemma delete_loop_real:
  assumes "http_only api" and "\<forall>f\<in>set fs. has_key f ''id''"
  shows "fst (delete_loop api False name fs s) = None \<and>
         observe (snd (delete_loop api False name fs s)) = advance api (map id_of fs) (observe s) \<and>
         total_to_delete (snd (delete_loop api False name fs s)) = total_to_delete s + length fs"
  using assms(2)
proof (induction fs arbitrary: s)
  case Nil
  then show ?case by simp
next
  case (Cons f fs)
  then have id: "getitem f ''id'' = Inr (id_of f)" by (simp add: getitem_id)
  let ?s0 = "emit (Deleting (id_of f) (get f ''modifiedTime'' ''N/A''))
      (s\<lparr>total_to_delete := total_to_delete s + 1\<rparr>)"
  from delete_file_http(1) [OF assms(1), of "id_of f" name ?s0]
  obtain deleted s1 where df: "delete_file api (id_of f) name ?s0 = (Inr deleted, s1)"
    by (cases "delete_file api (id_of f) name ?s0") auto
  then have step: "delete_loop api False name (f # fs) s = delete_loop api False name fs s1"
    by (simp add: id Let_def)
  from df have s1: "s1 = snd (delete_file api (id_of f) name ?s0)" by simp
  have "observe s1 = advance api [id_of f] (observe s)"
    unfolding s1 by (simp add: delete_file_http(2) [OF assms(1)])
  moreover have "total_to_delete s1 = total_to_delete s + 1"
    unfolding s1 by (simp add: delete_file_total)
  moreover have "advance api (map id_of (f # fs)) (observe s) =
      advance api (map id_of fs) (advance api [id_of f] (observe s))"
    using advance_append [of api "[id_of f]" "map id_of fs" "observe s"] by simp
  ultimately show ?case
    using Cons.IH [of s1] Cons.prems by (simp only: step) simp
qed

lemma groups_loop_real:
  assumes "http_only api"
    and "\<forall>(name, files_list)\<in>set d. files_list \<noteq> [] \<and> (\<forall>f\<in>set files_list. has_key f ''id'')"
  shows "fst (groups_loop api False d s) = None \<and>
         observe (snd (groups_loop api False d s)) =
           advance api (map id_of (planned_deletions d)) (observe s) \<and>
         total_to_delete (snd (groups_loop api False d s)) =
           total_to_delete s + length (planned_deletions d)"
  using assms(2)
proof (induction d arbitrary: s)
  case Nil
  then show ?case by (simp add: planned_deletions_def)
next
  case (Cons p d)
  obtain name files_list where p: "p = (name, files_list)" by (cases p)
  with Cons.prems have ne: "files_list \<noteq> []" and ids: "\<forall>f\<in>set files_list. has_key f ''id''"
    by auto
  from keep_and_delete_Inr [OF ne] obtain keep to_delete
    where plan: "keep_and_delete files_list = Inr (keep, to_delete)"
      and sorted: "sort_reverse modified_key files_list = keep # to_delete"
    by blast
  have "set files_list = set (keep # to_delete)"
    using set_sort_reverse [of modified_key files_list] by (simp only: sorted)
  with ids have "has_key keep ''id''" and del_ids: "\<forall>f\<in>set to_delete. has_key f ''id''"
    by simp_all
  then have keep_id: "getitem keep ''id'' = Inr (id_of keep)"
    by (simp add: getitem_id)
  let ?s1 = "emit (Keeping (id_of keep) (get keep ''modifiedTime'' ''N/A''))
               (emit (Copies name (length files_list)) s)"
  obtain r s2 where loop: "delete_loop api False name to_delete ?s1 = (r, s2)"
    by (cases "delete_loop api False name to_delete ?s1")
  from delete_loop_real [OF assms(1) del_ids, of name ?s1] loop
  have r: "r = None" and s2: "observe s2 = advance api (map id_of to_delete) (observe s)"
    "total_to_delete s2 = total_to_delete s + length to_delete"
    by simp_all
  have step: "groups_loop api False (p # d) s = groups_loop api False d s2"
    by (simp add: p plan keep_id loop r)
  have planned: "planned_deletions (p # d) = to_delete @ planned_deletions d"
    by (simp add: planned_deletions_def p to_delete_of_def plan)
  from Cons.prems have "\<forall>(name, files_list)\<in>set d.
      files_list \<noteq> [] \<and> (\<forall>f\<in>set files_list. has_key f ''id'')" by simp
  from Cons.IH [OF this, of s2] s2 show ?case
    by (simp only: step planned map_append advance_append) simp
qed

lemma find_duplicates_groups_ok:
  assumes "find_duplicates files = Inr duplicates" and "\<forall>f\<in>set files. has_key f ''id''"
  shows "\<forall>(name, files_list)\<in>set duplicates.
           files_list \<noteq> [] \<and> (\<forall>f\<in>set files_list. has_key f ''id'')"
proof (rule ballI)
  fix p
  assume p: "p \<in> set duplicates"
  obtain n b where nb: "p = (n, b)" by (cases p)
  from p nb have mem: "(n, b) \<in> set duplicates" by simp
  from find_duplicates_member [OF assms(1) mem] assms(2)
  have "b \<noteq> [] \<and> (\<forall>f\<in>set b. has_key f ''id'')" by auto
  then show "case p of (name, files_list) \<Rightarrow>
      files_list \<noteq> [] \<and> (\<forall>f\<in>set files_list. has_key f ''id'')"
    unfolding nb prod.case .
qed

lemma find_duplicates_total:
  assumes "\<forall>f\<in>set files. has_key f ''name''"
  shows "\<exists>duplicates. find_duplicates files = Inr duplicates"
proof -
  from assms have "\<forall>f\<in>set files. map_of f ''name'' \<noteq> None"
    by (simp add: has_key_def)
  then obtain vs where "group_by_name files \<lparr>v_files = files, v_duplicates = []\<rparr> = Inr vs"
    using group_by_name_total by blast
  then show ?thesis
    by (simp add: find_duplicates_def find_duplicates_vars_def)
qed

lemma cleanup_duplicates_real:
  assumes "http_only api"
    and "find_duplicates files = Inr duplicates" and "\<forall>f\<in>set files. has_key f ''id''"
  shows "fst (cleanup_duplicates api folder_id files False s) = None \<and>
         observe (snd (cleanup_duplicates api folder_id files False s)) =
           advance api (map id_of (planned_deletions duplicates)) (observe s) \<and>
         (duplicates \<noteq> [] \<longrightarrow>
            last (out (snd (cleanup_duplicates api folder_id files False s))) =
              Successfully_removed (length (planned_deletions duplicates)))"
proof (cases "duplicates = []")
  case True
  with assms(2) show ?thesis
    by (simp add: cleanup_duplicates_def planned_deletions_def)
next
  case False
  let ?s1 = "(emit (Found_duplicates (length duplicates))
      (emit (Found_files (length files)) (emit (Scanning folder_id) s)))\<lparr>total_to_delete := 0\<rparr>"
  obtain r s2 where loop: "groups_loop api False duplicates ?s1 = (r, s2)"
    by (cases "groups_loop api False duplicates ?s1")
  from groups_loop_real [OF assms(1) find_duplicates_groups_ok [OF assms(2,3)], of ?s1] loop
  have "r = None"
    "observe s2 = advance api (map id_of (planned_deletions duplicates)) (observe s)"
    "total_to_delete s2 = length (planned_deletions duplicates)"
    by simp_all
  with False assms(2) loop show ?thesis
    by (simp add: cleanup_duplicates_def Let_def)
qed

lemma ex_w_find: "find_duplicates [file_P, file_Q, file_R, file_S] =
    Inr [(''w.pdf'', [file_P, file_Q, file_R, file_S])]"
  by (simp add: find_duplicates_def find_duplicates_vars_def getitem_def add_file_def
      file_P_def file_Q_def file_R_def file_S_def)

lemma ex_w_plan: "keep_and_delete [file_P, file_Q, file_R, file_S] =
    Inr (file_P, [file_Q, file_R, file_S])"
  by (simp add: keep_and_delete_def sort_reverse_def modified_key_def get_def
      file_P_def file_Q_def file_R_def file_S_def)






lemma http_only_fail_second: "http_only fail_second"
  by (simp add: http_only_def fail_second_def)



text \<open>
  Claim C2, at the example of three deletions of which the second fails. The run prints
  the failure of the second deletion when it happens, but counts the deletions it
  attempts, not their outcomes (the value \<open>delete_file\<close> returns is dropped at line
  148): the summary reports 3 files to delete and then "Successfully removed 3 duplicate
  files", and no line reports 2 successes and 1 failure.
\<close>

theorem summary_counts_attempts:
  "out (snd (cleanup_duplicates fail_second ''F'' [file_P, file_Q, file_R, file_S] False (init 0))) =
     [Scanning ''F'', Found_files 4, Found_duplicates 1, Copies ''w.pdf'' 4,
      Keeping ''P'' ''2024-01-04'',
      Deleting ''Q'' ''2024-01-03'', Deleted ''w.pdf'' ''Q'',
      Deleting ''R'' ''2024-01-02'', Failed_to_delete ''w.pdf'',
      Deleting ''S'' ''2024-01-01'', Deleted ''w.pdf'' ''S'',
      Summary 4 1 3, Successfully_removed 3]"
  unfolding cleanup_duplicates_def ex_w_find
  by (simp add: ex_w_plan Let_def)
     (simp add: getitem_def get_def delete_file_def fail_second_def init_def emit_def
        file_P_def file_Q_def file_R_def file_S_def)

section \<open>A second run\<close>

lemma to_delete_of_planned:
  "(n, fl) \<in> set duplicates \<Longrightarrow> set (to_delete_of fl) \<subseteq> set (planned_deletions duplicates)"
  by (force simp: planned_deletions_def)

lemma planned_deletionsE:
  assumes "d \<in> set (planned_deletions duplicates)"
  obtains n fl where "(n, fl) \<in> set duplicates" "d \<in> set (to_delete_of fl)"
  using assms by (auto simp: planned_deletions_def)

lemma to_delete_of_plan:
  "keep_and_delete fl = Inr (keep, to_delete) \<Longrightarrow> to_delete_of fl = to_delete"
  by (simp add: to_delete_of_def)

lemma at_most_keep_remains:
  assumes plan: "keep_and_delete fl = Inr (keep, to_delete)"
    and gone: "\<forall>d\<in>set to_delete. \<not> R d"
  shows "length (filter R fl) \<le> 1"
proof -
  have "length (filter R fl) = size (filter_mset R (mset fl))"
    by (simp flip: mset_filter)
  also have "\<dots> = size (filter_mset R (mset (keep # to_delete)))"
    by (simp only: keep_and_delete_mset [OF plan])
  also have "\<dots> = length (filter R (keep # to_delete))"
    by (simp only: size_mset flip: mset_filter)
  also from gone have "filter R to_delete = []" by (simp add: filter_empty_conv)
  then have "length (filter R (keep # to_delete)) \<le> 1" by simp
  finally show ?thesis .
qed

lemma find_duplicates_group:
  assumes "find_duplicates files = Inr duplicates"
    and "length (filter (\<lambda>f. getitem f ''name'' = Inr n) files) > 1"
  shows "(n, filter (\<lambda>f. getitem f ''name'' = Inr n) files) \<in> set duplicates"
proof -
  from find_duplicates_keys(1) [OF assms(1)] assms(2) have "n \<in> fst ` set duplicates" by simp
  then obtain b where b: "(n, b) \<in> set duplicates" by auto
  from find_duplicates_member(1) [OF assms(1) b] b show ?thesis by simp
qed

lemma no_duplicates_left:
  assumes names: "\<forall>f\<in>set files. has_key f ''name''"
    and dups: "find_duplicates files = Inr duplicates"
  shows "find_duplicates (apply_deletions (map id_of (planned_deletions duplicates)) files) = Inr []"
proof -
  let ?D = "map id_of (planned_deletions duplicates)"
  let ?R = "\<lambda>f. id_of f \<notin> set ?D"
  let ?rest = "apply_deletions ?D files"
  from names have "\<forall>f\<in>set ?rest. has_key f ''name''" by (simp add: apply_deletions_def)
  from find_duplicates_total [OF this] obtain d2 where d2: "find_duplicates ?rest = Inr d2"
    by blast
  have "d2 = []"
  proof (rule ccontr)
    assume "d2 \<noteq> []"
    then obtain n b where mem: "(n, b) \<in> set d2" by (cases d2) auto
    let ?Q = "\<lambda>f. getitem f ''name'' = Inr n"
    let ?fl = "filter ?Q files"
    from find_duplicates_member [OF d2 mem]
    have b: "b = filter ?Q ?rest" and len: "length b > 1" by simp_all
    have comm: "filter ?Q ?rest = filter ?R ?fl"
      by (simp add: apply_deletions_def conj_commute)
    have "length (filter ?R ?fl) \<le> length ?fl" by (rule length_filter_le)
    with len b comm have "length ?fl > 1" by simp
    from find_duplicates_group [OF dups this] have group: "(n, ?fl) \<in> set duplicates" .
    from \<open>length ?fl > 1\<close> have "?fl \<noteq> []" by auto
    from keep_and_delete_Inr [OF this] obtain keep to_delete
      where plan: "keep_and_delete ?fl = Inr (keep, to_delete)" by blast
    have "set to_delete \<subseteq> set (planned_deletions duplicates)"
      using to_delete_of_planned [OF group] by (simp only: to_delete_of_plan [OF plan])
    then have "\<forall>d\<in>set to_delete. \<not> ?R d" by auto
    from at_most_keep_remains [OF plan this] len b comm show False by simp
  qed
  with d2 show ?thesis by simp
qed

lemma keep_remains:
  assumes dups: "find_duplicates files = Inr duplicates"
    and ids: "distinct (map id_of files)"
    and group: "(n, fl) \<in> set duplicates"
    and plan: "keep_and_delete fl = Inr (keep, to_delete)"
  shows "keep \<in> set (apply_deletions (map id_of (planned_deletions duplicates)) files)"
proof -
  from find_duplicates_member(1) [OF dups group]
  have fl: "fl = filter (\<lambda>f. getitem f ''name'' = Inr n) files" .
  from ids have dist: "distinct files" by (simp add: distinct_map)
  from ids have inj: "inj_on id_of (set files)" by (simp add: distinct_map)
  have perm: "mset (keep # to_delete) = mset fl" by (rule keep_and_delete_mset [OF plan])
  then have "set (keep # to_delete) = set fl" by (rule mset_eq_setD)
  with fl have keep: "keep \<in> set files" "getitem keep ''name'' = Inr n" by auto
  have "id_of keep \<notin> id_of ` set (planned_deletions duplicates)"
  proof
    assume "id_of keep \<in> id_of ` set (planned_deletions duplicates)"
    then obtain d where d: "d \<in> set (planned_deletions duplicates)" and eq: "id_of keep = id_of d"
      by auto
    from d obtain n' fl' where group': "(n', fl') \<in> set duplicates" and d': "d \<in> set (to_delete_of fl')"
      by (rule planned_deletionsE)
    from find_duplicates_member [OF dups group']
    have fl': "fl' = filter (\<lambda>f. getitem f ''name'' = Inr n') files" and "length fl' > 1" by simp_all
    then have "fl' \<noteq> []" by auto
    from keep_and_delete_Inr [OF this] obtain keep' to_delete'
      where plan': "keep_and_delete fl' = Inr (keep', to_delete')" by blast
    from d' have d_del: "d \<in> set to_delete'" by (simp only: to_delete_of_plan [OF plan'])
    have perm': "mset (keep' # to_delete') = mset fl'" by (rule keep_and_delete_mset [OF plan'])
    then have "set (keep' # to_delete') = set fl'" by (rule mset_eq_setD)
    with d_del fl' have dfiles: "d \<in> set files" "getitem d ''name'' = Inr n'" by auto
    from inj keep(1) dfiles(1) eq have same: "keep = d" by (auto dest: inj_onD)
    with keep(2) dfiles(2) have "n = n'" by simp
    with fl fl' have "fl' = fl" by simp
    with plan plan' have "to_delete' = to_delete" by simp
    with d_del same have "keep \<in> set to_delete" by simp
    moreover from dist fl have "distinct fl" by simp
    with perm have "distinct (keep # to_delete)" by (metis mset_eq_imp_distinct_iff)
    ultimately show False by simp
  qed
  with keep(1) show ?thesis by (simp add: apply_deletions_def)
qed

text \<open>
  Claim C6. A second run finds nothing. On a listing whose records carry \<open>name\<close> and
  \<open>id\<close>, take the delete requests that a run with \<open>dry_run\<close> false sends (for any
  service whose delete requests return or raise \<open>HttpError\<close>, so that the run reaches
  every record it marks) and remove from the listing the files with these ids:
  \<open>find_duplicates\<close> on what remains returns the empty dict. When the ids of the listing
  are distinct, the record kept in each group of the first run is among the files that
  remain. The requests sent are those for the records marked for deletion.
\<close>

theorem second_run_finds_nothing:
  assumes "\<forall>f\<in>set files. has_key f ''name'' \<and> has_key f ''id''" and "http_only api"
  shows "find_duplicates
           (apply_deletions (calls (snd (cleanup_duplicates api folder_id files False (init g))))
              files) = Inr [] \<and>
         (distinct (map id_of files) \<longrightarrow>
            (\<forall>duplicates name files_list keep to_delete.
               find_duplicates files = Inr duplicates \<and> (name, files_list) \<in> set duplicates \<and>
               keep_and_delete files_list = Inr (keep, to_delete) \<longrightarrow>
               keep \<in> set (apply_deletions
                 (calls (snd (cleanup_duplicates api folder_id files False (init g)))) files))) \<and>
         (\<exists>duplicates. find_duplicates files = Inr duplicates \<and>
            calls (snd (cleanup_duplicates api folder_id files False (init g))) =
              map id_of (planned_deletions duplicates))"
proof -
  from assms(1) have names: "\<forall>f\<in>set files. has_key f ''name''"
    and ids: "\<forall>f\<in>set files. has_key f ''id''" by simp_all
  from find_duplicates_total [OF names] obtain duplicates
    where dups: "find_duplicates files = Inr duplicates" by blast
  from cleanup_duplicates_real [OF assms(2) dups ids, of folder_id "init g"]
  have sent: "calls (snd (cleanup_duplicates api folder_id files False (init g))) =
      map id_of (planned_deletions duplicates)"
    by (simp add: init_def observe_def advance_def)
  have none: "find_duplicates (apply_deletions (map id_of (planned_deletions duplicates)) files) = Inr []"
    by (rule no_duplicates_left [OF names dups])
  have kept: "keep \<in> set (apply_deletions (map id_of (planned_deletions duplicates)) files)"
    if "distinct (map id_of files)" "find_duplicates files = Inr duplicates'"
      "(name, files_list) \<in> set duplicates'" "keep_and_delete files_list = Inr (keep, to_delete)"
    for duplicates' name files_list keep to_delete
  proof -
    from that(2) dups have "duplicates' = duplicates" by simp
    with that show ?thesis by (intro keep_remains [OF dups]) simp_all
  qed
  from none kept dups show ?thesis unfolding sent by blast
qed

text \<open>The example listing: after the run deletes A, no name has two files, and B remains.\<close>

theorem second_run_finds_nothing_witness:
  "list_all (\<lambda>f. has_key f ''name'' \<and> has_key f ''id'') [file_A, file_B, file_C] \<and>
   http_only fail_second \<and>
   distinct (map id_of [file_A, file_B, file_C]) \<and>
   find_duplicates
     (apply_deletions
        (calls (snd (cleanup_duplicates fail_second ''F'' [file_A, file_B, file_C] False (init 0))))
        [file_A, file_B, file_C]) = Inr [] \<and>
   file_B \<in> set (apply_deletions
        (calls (snd (cleanup_duplicates fail_second ''F'' [file_A, file_B, file_C] False (init 0))))
        [file_A, file_B, file_C])"
proof -
  have h: "\<forall>f\<in>set [file_A, file_B, file_C]. has_key f ''name'' \<and> has_key f ''id''"
    by (simp add: has_key_def file_A_def file_B_def file_C_def)
  have ids: "distinct (map id_of [file_A, file_B, file_C])"
    by (simp add: id_of_def get_def file_A_def file_B_def file_C_def)
  have find: "find_duplicates [file_A, file_B, file_C] = Inr [(''x.pdf'', [file_A, file_B])]"
    by (simp add: find_duplicates_def ex_find)
  have plan: "keep_and_delete [file_A, file_B] = Inr (file_B, [file_A])"
    by (simp add: keep_and_delete_def sort_reverse_def modified_key_def get_def file_A_def file_B_def)
  from second_run_finds_nothing [OF h http_only_fail_second, of "''F''" 0] ids find plan
  show ?thesis using h http_only_fail_second by (auto simp: list_all_iff)
qed

section \<open>The exit status\<close>









end
